theory Spec2Isabelle
  imports Main "HOL-Library.Monad_Syntax"
begin

section \<open>The exponential moving average filter of \<^verbatim>\<open>src/Helpers/EMA.h\<close>\<close>

subsection \<open>Template instantiation and integer types\<close>

text \<open>
  \<^verbatim>\<open>template <uint8_t K, class int_t> class EMA\<close> is instantiated with a shift \<open>K\<close>
  (a \<^verbatim>\<open>uint8_t\<close>, so a natural number up to 255) and a signed integer type
  \<open>int_t\<close>, of which only the width matters. The expressions of the class also
  compute in the platform's \<^verbatim>\<open>int\<close>: the literal \<^verbatim>\<open>1\<close> and \<^verbatim>\<open>K * 2\<close> are
  \<^verbatim>\<open>int\<close>s, and an \<open>int_t\<close> narrower than \<^verbatim>\<open>int\<close> is promoted to it before
  every arithmetic operation. The width of \<^verbatim>\<open>int\<close> is not fixed by the source
  (16 bits on AVR, 32 bits on ARM and ESP32), so it is a parameter of the model.
\<close>

record cfg =
  K :: nat
  int_t_bits :: nat
  int_bits :: nat

text \<open>
  Values of the signed types are mathematical integers; \<open>wrap w\<close> is the conversion to
  the signed type of \<open>w\<close> bits (two's complement, the value modulo \<open>2 ^ w\<close>). It is
  what an assignment to a narrower type yields, and what an overflowing addition or
  subtraction yields on the targets of the library: the source checks nothing, and an
  overflow shows as a wrapped value. \<open>in_range w x\<close> says that \<open>x\<close> is a value of the
  type, so that \<open>wrap w\<close> leaves it as it is.
\<close>

definition wrap :: "nat \<Rightarrow> int \<Rightarrow> int" where
  "wrap w x = (x + 2 ^ (w - 1)) mod 2 ^ w - 2 ^ (w - 1)"

definition in_range :: "nat \<Rightarrow> int \<Rightarrow> bool" where
  "in_range w x \<longleftrightarrow> - (2 ^ (w - 1)) \<le> x \<and> x < 2 ^ (w - 1)"

text \<open>
  The type in which a binary operation on \<open>int_t\<close> operands is carried out: \<^verbatim>\<open>int\<close>
  when \<open>int_t\<close> is narrower (integral promotion), \<open>int_t\<close> itself otherwise.
\<close>

definition promoted :: "cfg \<Rightarrow> nat" where
  "promoted c = max (int_t_bits c) (int_bits c)"

text \<open>
  The shift operators on a type of \<open>bits\<close> bits. A shift count that is negative or not
  less than the width of the (promoted) left operand has no defined result: \<open>None\<close>
  (in a \<^verbatim>\<open>constexpr\<close> initialiser the compiler rejects it). \<^verbatim>\<open><<\<close> multiplies by a
  power of two modulo \<open>2 ^ bits\<close>, for a negative left operand too, as the compilers
  of the targets do and C++20 defines; \<^verbatim>\<open>>>\<close> on a signed operand is the arithmetic
  shift, that is, division by a power of two rounding towards minus infinity (\<open>div\<close>
  on \<open>int\<close>).
\<close>

definition shl :: "nat \<Rightarrow> int \<Rightarrow> int \<Rightarrow> int option" where
  "shl bits x n = (if n < 0 \<or> int bits \<le> n then None else Some (wrap bits (x * 2 ^ nat n)))"

definition shr :: "nat \<Rightarrow> int \<Rightarrow> int \<Rightarrow> int option" where
  "shr bits x n = (if n < 0 \<or> int bits \<le> n then None else Some (x div 2 ^ nat n))"

subsection \<open>The class\<close>

text \<open>
  \<^verbatim>\<open>constexpr static int_t fixedPointAHalf = 1 << ((K * 2) - 1);\<close>
  The shift is an \<^verbatim>\<open>int\<close> shift of the \<^verbatim>\<open>int\<close> literal \<^verbatim>\<open>1\<close> by an \<^verbatim>\<open>int\<close> count
  (\<open>K\<close> is promoted, so \<^verbatim>\<open>K * 2\<close> does not wrap at 8 bits); its result is converted
  to \<open>int_t\<close>. For \<open>K = 0\<close> the count is \<open>-1\<close>.
\<close>

definition fixedPointAHalf :: "cfg \<Rightarrow> int option" where
  "fixedPointAHalf c =
     map_option (wrap (int_t_bits c)) (shl (int_bits c) 1 (int (K c) * 2 - 1))"

text \<open>The only data member, \<^verbatim>\<open>int_t filtered = 0\<close>.\<close>

record EMA =
  filtered :: int

definition EMA_init :: EMA where
  "EMA_init = \<lparr>filtered = 0\<rparr>"

text \<open>
  \<^verbatim>\<open>
  int_t EMA<K, int_t>::filter(int_t input) {
      input = input << (K * 2);
      int_t difference = input - filtered;
      filtered = filtered + (difference >> K);
      return (filtered + fixedPointAHalf) >> (K * 2);
  }
  \<close>
  Each operation is carried out in the promoted type and its result converted to
  \<open>int_t\<close> where the source stores it in an \<open>int_t\<close> (the parameter, the local, the
  member, the return value). The call returns the output and the updated object, or
  \<open>None\<close> where a shift has no defined result. The function is named \<open>filter_ema\<close>
  (\<open>filter\<close> is the list function of HOL), and \<open>input0\<close> is the parameter as passed,
  before the source overwrites it.
\<close>

definition filter_ema :: "cfg \<Rightarrow> EMA \<Rightarrow> int \<Rightarrow> (int \<times> EMA) option" where
  "filter_ema c s input0 = do {
     half \<leftarrow> fixedPointAHalf c;
     shifted \<leftarrow> shl (promoted c) input0 (int (K c) * 2);
     let input = wrap (int_t_bits c) shifted;
     let difference = wrap (int_t_bits c) (wrap (promoted c) (input - filtered s));
     d \<leftarrow> shr (promoted c) difference (int (K c));
     let s' = s\<lparr>filtered := wrap (int_t_bits c) (wrap (promoted c) (filtered s + d))\<rparr>;
     r \<leftarrow> shr (promoted c) (wrap (promoted c) (filtered s' + half)) (int (K c) * 2);
     Some (wrap (int_t_bits c) r, s')
   }"

text \<open>
  A caller feeding a sequence of samples to one object: the outputs in order and the
  object after the last call.
\<close>

fun run :: "cfg \<Rightarrow> EMA \<Rightarrow> int list \<Rightarrow> (int list \<times> EMA) option" where
  "run c s [] = Some ([], s)"
| "run c s (x # xs) = do {
     (y, s') \<leftarrow> filter_ema c s x;
     (ys, s'') \<leftarrow> run c s' xs;
     Some (y # ys, s'')
   }"

subsection \<open>Which instantiations exist, and which are wide enough\<close>

text \<open>
  \<open>instantiable c\<close>: every shift count of the class is in range, so the constant has a
  value and a call returns (lemma \<open>filter_ema_defined\<close> below shows that this is
  exactly the condition). \<open>well_sized c\<close>: both \<open>int_t\<close> and \<^verbatim>\<open>int\<close> have more than
  \<open>2 * K\<close> bits, so that \<open>2 ^ (2 * K - 1)\<close> is a positive value of both types.
\<close>

definition instantiable :: "cfg \<Rightarrow> bool" where
  "instantiable c \<longleftrightarrow> 1 \<le> K c \<and> 2 * K c \<le> int_bits c \<and> 2 * K c < promoted c"

definition well_sized :: "cfg \<Rightarrow> bool" where
  "well_sized c \<longleftrightarrow> 1 \<le> K c \<and> 2 * K c < int_t_bits c \<and> 2 * K c < int_bits c"

subsection \<open>The algorithm in the words of the specification\<close>

text \<open>
  Section 4.1 of the specification, on unbounded integers: scale the input by
  \<open>2 ^ (2 * K)\<close>, take the difference to the accumulator, add the difference shifted
  right by \<open>K\<close> (rounding towards minus infinity) to the accumulator, and return the
  accumulator plus \<open>2 ^ (2 * K - 1)\<close> shifted right by \<open>2 * K\<close>. The result is the pair
  of the output and the new accumulator.
\<close>

definition spec_filter :: "nat \<Rightarrow> int \<Rightarrow> int \<Rightarrow> int \<times> int" where
  "spec_filter k accumulator input =
     (let scaled_input = input * 2 ^ (2 * k);
          difference = scaled_input - accumulator;
          accumulator' = accumulator + difference div 2 ^ k;
          output = (accumulator' + 2 ^ (2 * k - 1)) div 2 ^ (2 * k)
      in (output, accumulator'))"



text \<open>
  The two expressions of \<open>filter\<close> as functions on integers, for reasoning about
  sequences of calls: \<open>next_acc k t a\<close> is the update
  \<^verbatim>\<open>filtered + ((input - filtered) >> K)\<close> of the accumulator \<open>a\<close> towards the scaled
  input \<open>t\<close> where nothing overflows, and \<open>descale c a\<close> is the return expression
  \<^verbatim>\<open>(filtered + fixedPointAHalf) >> (K * 2)\<close> at the accumulator \<open>a\<close>, with the
  conversions of the types.
\<close>

definition next_acc :: "nat \<Rightarrow> int \<Rightarrow> int \<Rightarrow> int" where
  "next_acc k t a = a + (t - a) div 2 ^ k"

definition descale :: "cfg \<Rightarrow> int \<Rightarrow> int" where
  "descale c a =
     wrap (int_t_bits c)
       (wrap (promoted c) (a + wrap (int_t_bits c) (wrap (int_bits c) (2 ^ (2 * K c - 1))))
          div 2 ^ (2 * K c))"

section \<open>Arithmetic of the model\<close>

lemma two_power_split: "0 < w \<Longrightarrow> (2::int) ^ w = 2 * 2 ^ (w - 1)"
  by (cases w) simp_all

lemma wrap_id: "0 < w \<Longrightarrow> in_range w x \<Longrightarrow> wrap w x = x"
  by (simp add: wrap_def in_range_def two_power_split [of w])

lemma wrap_in_range: "0 < w \<Longrightarrow> in_range w (wrap w x)"
proof -
  assume w: "0 < w"
  have "0 \<le> (x + 2 ^ (w - 1)) mod 2 ^ w" by simp
  moreover have "(x + 2 ^ (w - 1)) mod 2 ^ w < (2::int) ^ w" by simp
  ultimately show ?thesis
    using two_power_split [OF w] by (simp add: wrap_def in_range_def)
qed

lemma wrap_cong: "x mod 2 ^ w = y mod 2 ^ w \<Longrightarrow> wrap w x = wrap w y"
  unfolding wrap_def by (metis mod_add_cong)

lemma wrap_mod: "wrap w x mod 2 ^ w = x mod 2 ^ w"
  unfolding wrap_def by (simp add: mod_diff_left_eq)

lemma wrap_wrap_le: "w \<le> v \<Longrightarrow> wrap w (wrap v x) = wrap w x"
proof (rule wrap_cong)
  assume "w \<le> v"
  then have d: "(2::int) ^ w dvd 2 ^ v" by (simp add: le_imp_power_dvd)
  have "wrap v x mod 2 ^ w = (wrap v x mod 2 ^ v) mod 2 ^ w"
    using d by (simp add: mod_mod_cancel)
  also have "\<dots> = (x mod 2 ^ v) mod 2 ^ w" by (simp add: wrap_mod)
  also have "\<dots> = x mod 2 ^ w" using d by (simp add: mod_mod_cancel)
  finally show "wrap v x mod 2 ^ w = x mod 2 ^ w" .
qed

lemma in_range_mono: "w \<le> v \<Longrightarrow> in_range w x \<Longrightarrow> in_range v x"
proof -
  assume "w \<le> v" and r: "in_range w x"
  have "(2::int) ^ (w - 1) \<le> 2 ^ (v - 1)"
    by (rule power_increasing) (use \<open>w \<le> v\<close> in auto)
  with r show ?thesis unfolding in_range_def by linarith
qed

lemma well_sized_instantiable: "well_sized c \<Longrightarrow> instantiable c"
  by (auto simp: well_sized_def instantiable_def promoted_def)

lemma fixedPointAHalf_defined:
  "(\<exists>h. fixedPointAHalf c = Some h) \<longleftrightarrow> 1 \<le> K c \<and> 2 * K c \<le> int_bits c"
  by (auto simp: fixedPointAHalf_def shl_def)

lemma filter_ema_defined:
  "(\<exists>r. filter_ema c s x = Some r) \<longleftrightarrow> instantiable c"
  by (auto simp: filter_ema_def fixedPointAHalf_def shl_def shr_def instantiable_def Let_def
      split: bind_splits if_splits)

lemma nat_shift_counts [simp]:
  "nat (int k * 2) = 2 * k" "nat (int k * 2 - 1) = 2 * k - 1"
  by auto

lemma filter_ema_unfold:
  assumes "instantiable c"
  shows "filter_ema c s x =
    (let w = int_t_bits c;
         acc = wrap w (filtered s + wrap w (wrap w (x * 2 ^ (2 * K c)) - filtered s) div 2 ^ K c);
         half = wrap w (wrap (int_bits c) (2 ^ (2 * K c - 1)))
     in Some (wrap w (wrap (promoted c) (acc + half) div 2 ^ (2 * K c)), s\<lparr>filtered := acc\<rparr>))"
proof -
  have le: "int_t_bits c \<le> promoted c" by (simp add: promoted_def)
  from assms have h: "fixedPointAHalf c = Some (wrap (int_t_bits c) (wrap (int_bits c) (2 ^ (2 * K c - 1))))"
    by (auto simp: fixedPointAHalf_def shl_def instantiable_def)
  from assms have a: "shl (promoted c) x (int (K c) * 2) = Some (wrap (promoted c) (x * 2 ^ (2 * K c)))"
    by (auto simp: shl_def instantiable_def)
  from assms have b: "\<And>y. shr (promoted c) y (int (K c)) = Some (y div 2 ^ K c)"
    by (auto simp: shr_def instantiable_def)
  from assms have d: "\<And>y. shr (promoted c) y (int (K c) * 2) = Some (y div 2 ^ (2 * K c))"
    by (auto simp: shr_def instantiable_def)
  show ?thesis
    by (simp add: filter_ema_def h a b d Let_def wrap_wrap_le [OF le])
qed


lemma div_pow2_nonneg: "0 \<le> e \<Longrightarrow> 0 \<le> e div 2 ^ k \<and> e div 2 ^ k \<le> (e::int)"
proof -
  assume e: "0 \<le> e"
  have "e div 2 ^ k \<le> e div 1" by (rule zdiv_mono2) (use e in auto)
  with e show ?thesis by (simp add: pos_imp_zdiv_nonneg_iff)
qed

lemma div_pow2_neg: "e < 0 \<Longrightarrow> e \<le> e div 2 ^ k \<and> e div 2 ^ k < (0::int)"
proof -
  assume e: "e < 0"
  have "e div 1 \<le> e div 2 ^ k" by (rule zdiv_mono2_neg) (use e in auto)
  moreover have "e div 2 ^ k < 0" by (rule div_neg_pos_less0) (use e in auto)
  ultimately show ?thesis by simp
qed

lemma half_exact:
  assumes "well_sized c"
  shows "wrap (int_t_bits c) (wrap (int_bits c) (2 ^ (2 * K c - 1))) = 2 ^ (2 * K c - 1)"
proof -
  have a: "in_range (int_bits c) (2 ^ (2 * K c - 1))"
  proof -
    have "(2::int) ^ (2 * K c - 1) < 2 ^ (int_bits c - 1)"
      by (rule power_strict_increasing) (use assms in \<open>auto simp: well_sized_def\<close>)
    then show ?thesis by (simp add: in_range_def order_trans [of _ 0])
  qed
  have b: "in_range (int_t_bits c) (2 ^ (2 * K c - 1))"
  proof -
    have "(2::int) ^ (2 * K c - 1) < 2 ^ (int_t_bits c - 1)"
      by (rule power_strict_increasing) (use assms in \<open>auto simp: well_sized_def\<close>)
    then show ?thesis by (simp add: in_range_def order_trans [of _ 0])
  qed
  from assms have "0 < int_bits c" "0 < int_t_bits c" by (auto simp: well_sized_def)
  then show ?thesis using a b by (simp add: wrap_id)
qed

lemma acc_between:
  fixes a t :: int
  shows "min a t \<le> a + (t - a) div 2 ^ k \<and> a + (t - a) div 2 ^ k \<le> max a t"
proof (cases "0 \<le> t - a")
  case True
  from div_pow2_nonneg [OF this, of k] True show ?thesis by auto
next
  case False
  then have "t - a < 0" by simp
  from div_pow2_neg [OF this, of k] False show ?thesis by auto
qed

lemma in_range_between:
  "in_range w a \<Longrightarrow> in_range w b \<Longrightarrow> min a b \<le> x \<Longrightarrow> x \<le> max a b \<Longrightarrow> in_range w x"
  by (auto simp: in_range_def min_def max_def split: if_splits)

lemma next_acc_between: "min a t \<le> next_acc k t a \<and> next_acc k t a \<le> max a t"
  unfolding next_acc_def by (rule acc_between)

lemma funpow_next_acc_between:
  "min a t \<le> (next_acc k t ^^ n) a \<and> (next_acc k t ^^ n) a \<le> max a t"
proof (induction n)
  case 0
  then show ?case by simp
next
  case (Suc n)
  then show ?case using next_acc_between [of "(next_acc k t ^^ n) a" t k] by auto
qed

lemma filter_ema_step:
  assumes i: "instantiable c" and w: "0 < int_t_bits c"
    and r0: "in_range (int_t_bits c) (filtered s)"
    and r1: "in_range (int_t_bits c) (x * 2 ^ (2 * K c))"
    and r2: "in_range (int_t_bits c) (x * 2 ^ (2 * K c) - filtered s)"
  shows "filter_ema c s x =
    Some (descale c (next_acc (K c) (x * 2 ^ (2 * K c)) (filtered s)),
          s\<lparr>filtered := next_acc (K c) (x * 2 ^ (2 * K c)) (filtered s)\<rparr>)"
proof -
  have ra: "in_range (int_t_bits c) (filtered s + (x * 2 ^ (2 * K c) - filtered s) div 2 ^ K c)"
    using in_range_between [OF r0 r1] acc_between [of "filtered s" "x * 2 ^ (2 * K c)" "K c"]
    by blast
  show ?thesis
    unfolding filter_ema_unfold [OF i] Let_def descale_def next_acc_def
      wrap_id [OF w r1] wrap_id [OF w r2] wrap_id [OF w ra]
    by (rule refl)
qed

lemma descale_exact:
  assumes ws: "well_sized c"
    and ra: "in_range (int_t_bits c) a"
    and r3: "in_range (promoted c) (a + 2 ^ (2 * K c - 1))"
  shows "descale c a = (a + 2 ^ (2 * K c - 1)) div 2 ^ (2 * K c)"
proof -
  let ?w = "int_t_bits c" and ?h = "(2::int) ^ (2 * K c - 1)"
  from ws have w: "0 < ?w" and p: "0 < promoted c" and k: "2 * K c < ?w" "1 \<le> K c"
    by (auto simp: well_sized_def promoted_def)
  have hpos: "0 < ?h" by simp
  have hle: "?h * 2 \<le> 2 ^ (?w - 1)"
  proof -
    have "?h * 2 = 2 ^ (2 * K c)" using k by (simp add: two_power_split [of "2 * K c"])
    also have "\<dots> \<le> 2 ^ (?w - 1)" by (rule power_increasing) (use k in auto)
    finally show ?thesis .
  qed
  have four: "(4::int) \<le> 2 ^ (2 * K c)"
  proof -
    have "(2::int) ^ 2 \<le> 2 ^ (2 * K c)" by (rule power_increasing) (use k in auto)
    then show ?thesis by simp
  qed
  have rr: "in_range ?w ((a + ?h) div 2 ^ (2 * K c))"
  proof (cases "0 \<le> a + ?h")
    case True
    have "(a + ?h) div 2 ^ (2 * K c) \<le> (a + ?h) div 4"
      by (rule zdiv_mono2) (use True four in auto)
    moreover have "a + ?h < 2 ^ (?w - 1) * 2"
      using ra hle hpos unfolding in_range_def by linarith
    moreover have "0 \<le> (a + ?h) div 2 ^ (2 * K c)"
      using True by (simp add: pos_imp_zdiv_nonneg_iff)
    moreover have "(0::int) < 2 ^ (?w - 1)" by simp
    ultimately show ?thesis unfolding in_range_def by linarith
  next
    case False
    then have n: "a + ?h < 0" by simp
    have "(a + ?h) div 1 \<le> (a + ?h) div 2 ^ (2 * K c)"
      by (rule zdiv_mono2_neg) (use n in auto)
    moreover have "(a + ?h) div 2 ^ (2 * K c) < 0"
      by (rule div_neg_pos_less0) (use n in auto)
    moreover have "- (2 ^ (?w - 1)) \<le> a + ?h"
      using ra hpos unfolding in_range_def by linarith
    moreover have "(0::int) < 2 ^ (?w - 1)" by simp
    ultimately show ?thesis unfolding in_range_def by simp
  qed
  show ?thesis
    unfolding descale_def half_exact [OF ws] wrap_id [OF p r3] wrap_id [OF w rr]
    by (rule refl)
qed

lemma filter_ema_exact:
  assumes ws: "well_sized c"
    and r0: "in_range (int_t_bits c) (filtered s)"
    and r1: "in_range (int_t_bits c) (x * 2 ^ (2 * K c))"
    and r2: "in_range (int_t_bits c) (x * 2 ^ (2 * K c) - filtered s)"
    and r3: "in_range (promoted c)
               (filtered s + (x * 2 ^ (2 * K c) - filtered s) div 2 ^ K c + 2 ^ (2 * K c - 1))"
  shows "filter_ema c s x =
    Some ((filtered s + (x * 2 ^ (2 * K c) - filtered s) div 2 ^ K c + 2 ^ (2 * K c - 1))
            div 2 ^ (2 * K c),
          s\<lparr>filtered := filtered s + (x * 2 ^ (2 * K c) - filtered s) div 2 ^ K c\<rparr>)"
proof -
  from ws have w: "0 < int_t_bits c" by (auto simp: well_sized_def)
  have ra: "in_range (int_t_bits c) (next_acc (K c) (x * 2 ^ (2 * K c)) (filtered s))"
    using in_range_between [OF r0 r1] next_acc_between [of "filtered s" "x * 2 ^ (2 * K c)" "K c"]
    by blast
  have d: "descale c (next_acc (K c) (x * 2 ^ (2 * K c)) (filtered s)) =
      (next_acc (K c) (x * 2 ^ (2 * K c)) (filtered s) + 2 ^ (2 * K c - 1)) div 2 ^ (2 * K c)"
    by (rule descale_exact [OF ws ra]) (use r3 in \<open>simp add: next_acc_def\<close>)
  show ?thesis
    unfolding filter_ema_step [OF well_sized_instantiable [OF ws] w r0 r1 r2] d
    by (simp add: next_acc_def)
qed

lemma half_lt_scale: "1 \<le> k \<Longrightarrow> (2::int) ^ (2 * k - 1) * 2 = 2 ^ (2 * k)"
  using two_power_split [of "2 * k"] by simp

lemma div_scale_exact:
  assumes "1 \<le> k"
  shows "(x * 2 ^ (2 * k) + 2 ^ (2 * k - 1)) div 2 ^ (2 * k) = (x::int)"
proof -
  have "(0::int) \<le> 2 ^ (2 * k - 1)" by simp
  moreover have "(2::int) ^ (2 * k - 1) < 2 ^ (2 * k)"
    by (rule power_strict_increasing) (use assms in auto)
  ultimately have "(2::int) ^ (2 * k - 1) div 2 ^ (2 * k) = 0" by simp
  then show ?thesis by (simp add: div_add1_eq)
qed

lemma scaled_plus_half_in_range:
  assumes ws: "well_sized c" and r: "in_range (int_t_bits c) (x * 2 ^ (2 * K c))"
  shows "in_range (int_t_bits c) (x * 2 ^ (2 * K c) + 2 ^ (2 * K c - 1))"
proof -
  let ?w = "int_t_bits c" and ?m = "(2::int) ^ (2 * K c)"
  from ws have k: "1 \<le> K c" "2 * K c \<le> ?w - 1" by (auto simp: well_sized_def)
  have split: "(2::int) ^ (?w - 1) = 2 ^ (?w - 1 - 2 * K c) * ?m"
    using k by (simp flip: power_add)
  have m: "0 < ?m" by simp
  from r have "x * ?m < 2 ^ (?w - 1)" by (simp add: in_range_def)
  then have "x * ?m < 2 ^ (?w - 1 - 2 * K c) * ?m" using split by linarith
  then have "x < 2 ^ (?w - 1 - 2 * K c)" using m by (simp only: mult_less_cancel_right_pos)
  then have "x + 1 \<le> 2 ^ (?w - 1 - 2 * K c)" by simp
  then have "(x + 1) * ?m \<le> 2 ^ (?w - 1 - 2 * K c) * ?m" using m by (simp only: mult_le_cancel_right_pos)
  then have "x * ?m + ?m \<le> 2 ^ (?w - 1 - 2 * K c) * ?m" by (simp add: algebra_simps)
  then have up: "x * ?m + ?m \<le> 2 ^ (?w - 1)" using split by linarith
  have h: "(2::int) ^ (2 * K c - 1) < ?m"
    by (rule power_strict_increasing) (use k in auto)
  have hp: "(0::int) < 2 ^ (2 * K c - 1)" by simp
  from r have lo: "- (2 ^ (?w - 1)) \<le> x * ?m" by (simp add: in_range_def)
  show ?thesis unfolding in_range_def using up h hp lo by linarith
qed

lemma filter_ema_fixed_point:
  assumes ws: "well_sized c"
    and acc: "filtered s = x * 2 ^ (2 * K c)"
    and r: "in_range (int_t_bits c) (filtered s)"
  shows "filter_ema c s x = Some (x, s)"
proof -
  from ws have k: "1 \<le> K c" and w: "0 < int_t_bits c" by (auto simp: well_sized_def)
  have r0: "in_range (int_t_bits c) (x * 2 ^ (2 * K c))" using r acc by simp
  have r2: "in_range (int_t_bits c) (x * 2 ^ (2 * K c) - filtered s)"
    by (simp add: acc in_range_def)
  have "in_range (int_t_bits c) (x * 2 ^ (2 * K c) + 2 ^ (2 * K c - 1))"
    by (rule scaled_plus_half_in_range [OF ws r0])
  then have "in_range (promoted c) (x * 2 ^ (2 * K c) + 2 ^ (2 * K c - 1))"
    by (rule in_range_mono [rotated]) (simp add: promoted_def)
  then have r3: "in_range (promoted c)
      (filtered s + (x * 2 ^ (2 * K c) - filtered s) div 2 ^ K c + 2 ^ (2 * K c - 1))"
    by (simp add: acc)
  have "filter_ema c s x =
      Some ((filtered s + (x * 2 ^ (2 * K c) - filtered s) div 2 ^ K c + 2 ^ (2 * K c - 1))
              div 2 ^ (2 * K c),
            s\<lparr>filtered := filtered s + (x * 2 ^ (2 * K c) - filtered s) div 2 ^ K c\<rparr>)"
    by (rule filter_ema_exact [OF ws r r0 r2 r3])
  also have "\<dots> = Some (x, s)"
    using div_scale_exact [OF k, of x] by (simp add: acc)
  finally show ?thesis .
qed

lemma run_total:
  "instantiable c \<Longrightarrow> \<exists>ys s'. run c s xs = Some (ys, s') \<and> length ys = length xs"
proof (induction xs arbitrary: s)
  case Nil
  then show ?case by simp
next
  case (Cons x xs)
  from filter_ema_defined [of c s x] Cons.prems
  obtain y s1 where f: "filter_ema c s x = Some (y, s1)" by fastforce
  from Cons.IH [OF Cons.prems, of s1]
  obtain ys s2 where r: "run c s1 xs = Some (ys, s2)" "length ys = length xs" by blast
  show ?case by (simp add: f r)
qed

lemma wrap_diff_wrap: "wrap w (t - wrap w z) = wrap w (t - z)"
  by (rule wrap_cong) (metis mod_diff_right_eq wrap_mod)

lemma wrap_wrap_diff: "wrap w (wrap w z - d) = wrap w (z - d)"
  by (rule wrap_cong) (metis mod_diff_left_eq wrap_mod)

lemma sub_div_between:
  fixes e :: int
  shows "min 0 e \<le> e - e div 2 ^ k \<and> e - e div 2 ^ k \<le> max 0 e"
proof (cases "0 \<le> e")
  case True
  from div_pow2_nonneg [OF this, of k] True show ?thesis by auto
next
  case False
  then have "e < 0" by simp
  from div_pow2_neg [OF this, of k] False show ?thesis by auto
qed

lemma filter_ema_filtered:
  assumes "filter_ema c s x = Some (y, s')"
  shows "filtered s' = wrap (int_t_bits c)
     (filtered s + wrap (int_t_bits c) (wrap (int_t_bits c) (x * 2 ^ (2 * K c)) - filtered s)
        div 2 ^ K c)"
proof -
  from assms filter_ema_defined [of c s x] have "instantiable c" by blast
  from filter_ema_unfold [OF this, of s x] assms show ?thesis by (auto simp: Let_def)
qed

lemma machine_error_step:
  assumes f: "filter_ema c s x = Some (y, s')" and w: "0 < int_t_bits c"
  defines "t \<equiv> wrap (int_t_bits c) (x * 2 ^ (2 * K c))"
  defines "e \<equiv> wrap (int_t_bits c) (t - filtered s)"
  shows "wrap (int_t_bits c) (t - filtered s') = e - e div 2 ^ K c"
proof -
  let ?w = "int_t_bits c"
  have a: "filtered s' = wrap ?w (filtered s + e div 2 ^ K c)"
    using filter_ema_filtered [OF f] by (simp add: e_def t_def)
  have "wrap ?w (t - filtered s') = wrap ?w (t - (filtered s + e div 2 ^ K c))"
    by (simp only: a wrap_diff_wrap)
  also have "\<dots> = wrap ?w ((t - filtered s) - e div 2 ^ K c)"
    by (simp add: algebra_simps)
  also have "\<dots> = wrap ?w (e - e div 2 ^ K c)"
    by (simp only: e_def wrap_wrap_diff)
  also have "\<dots> = e - e div 2 ^ K c"
  proof (rule wrap_id [OF w])
    have "in_range ?w e" unfolding e_def by (rule wrap_in_range [OF w])
    moreover have "in_range ?w 0" by (simp add: in_range_def)
    ultimately show "in_range ?w (e - e div 2 ^ K c)"
      using sub_div_between [of e "K c"] in_range_between [of ?w 0 e] by blast
  qed
  finally show ?thesis .
qed

lemma decay_rounding:
  fixes e :: int
  shows "0 \<le> 2 ^ k * (e - e div 2 ^ k) - (2 ^ k - 1) * e \<and>
         2 ^ k * (e - e div 2 ^ k) - (2 ^ k - 1) * e < 2 ^ k"
proof -
  have "2 ^ k * (e - e div 2 ^ k) - (2 ^ k - 1) * e = e - 2 ^ k * (e div 2 ^ k)"
    by (simp add: algebra_simps)
  also have "\<dots> = e mod 2 ^ k" by (simp add: minus_mult_div_eq_mod)
  finally show ?thesis by simp
qed

lemma run_constant:
  assumes i: "instantiable c" and w: "0 < int_t_bits c"
    and t: "in_range (int_t_bits c) (x * 2 ^ (2 * K c))"
    and a: "min 0 (x * 2 ^ (2 * K c)) \<le> filtered s" "filtered s \<le> max 0 (x * 2 ^ (2 * K c))"
  shows "run c s (replicate n x) =
    Some (map (\<lambda>j. descale c ((next_acc (K c) (x * 2 ^ (2 * K c)) ^^ Suc j) (filtered s))) [0..<n],
          s\<lparr>filtered := (next_acc (K c) (x * 2 ^ (2 * K c)) ^^ n) (filtered s)\<rparr>)"
  using a
proof (induction n arbitrary: s)
  case 0
  then show ?case by simp
next
  case (Suc n)
  let ?t = "x * 2 ^ (2 * K c)"
  let ?s1 = "s\<lparr>filtered := next_acc (K c) ?t (filtered s)\<rparr>"
  have z: "in_range (int_t_bits c) 0" by (simp add: in_range_def)
  have r0: "in_range (int_t_bits c) (filtered s)"
    using in_range_between [OF z t] Suc.prems by blast
  have r2: "in_range (int_t_bits c) (?t - filtered s)"
    using in_range_between [OF z t, of "?t - filtered s"] Suc.prems by (auto simp: min_def max_def split: if_splits)
  have f: "filter_ema c s x = Some (descale c (next_acc (K c) ?t (filtered s)), ?s1)"
    by (rule filter_ema_step [OF i w r0 t r2])
  have b: "min 0 ?t \<le> filtered ?s1" "filtered ?s1 \<le> max 0 ?t"
    using next_acc_between [of "filtered s" ?t "K c"] Suc.prems by auto
  have up: "[0..<Suc n] = 0 # map Suc [0..<n]"
    by (simp add: upt_rec [of 0 "Suc n"] map_Suc_upt del: upt_Suc)
  have sh: "(next_acc (K c) ?t ^^ m) (next_acc (K c) ?t (filtered s))
      = (next_acc (K c) ?t ^^ Suc m) (filtered s)" for m
    by (simp add: funpow_swap1)
  have one: "next_acc (K c) ?t (filtered s) = (next_acc (K c) ?t ^^ Suc 0) (filtered s)"
    by simp
  have ih: "run c ?s1 (replicate n x) =
    Some (map (\<lambda>j. descale c ((next_acc (K c) ?t ^^ Suc (Suc j)) (filtered s))) [0..<n],
          s\<lparr>filtered := (next_acc (K c) ?t ^^ Suc n) (filtered s)\<rparr>)"
    using Suc.IH [OF b] by (simp add: sh del: funpow.simps)
  show ?case
    unfolding replicate_Suc run.simps f
    by (simp add: ih up comp_def one [symmetric] del: upt_Suc funpow.simps)
qed

lemma binomial_two_terms:
  fixes a :: int
  assumes "0 \<le> a"
  shows "a ^ Suc j + (int j + 1) * a ^ j \<le> (a + 1) ^ Suc j"
proof (induction j)
  case 0
  then show ?case by simp
next
  case (Suc j)
  have "a ^ Suc (Suc j) + (int (Suc j) + 1) * a ^ Suc j
      \<le> (a + 1) * (a ^ Suc j + (int j + 1) * a ^ j)"
    using assms by (simp add: algebra_simps)
  also have "\<dots> \<le> (a + 1) * (a + 1) ^ Suc j"
    by (rule mult_left_mono [OF Suc.IH]) (use assms in simp)
  finally show ?case by simp
qed

lemma two_pow_le:
  fixes m :: int
  assumes "m = int M" and "1 \<le> M"
  shows "2 * (m - 1) ^ M \<le> m ^ M"
proof -
  from assms obtain j where M: "M = Suc j" by (cases M) auto
  let ?a = "m - 1"
  have a: "0 \<le> ?a" using assms by simp
  have ij: "int j + 1 = ?a + 1" using assms M by simp
  have "2 * ?a ^ M = ?a ^ Suc j + ?a * ?a ^ j" by (simp add: M)
  also have "\<dots> \<le> ?a ^ Suc j + (?a + 1) * ?a ^ j"
    using a by (simp add: algebra_simps)
  also have "\<dots> \<le> (?a + 1) ^ Suc j"
    using binomial_two_terms [OF a, of j] by (simp only: ij)
  finally show ?thesis by (simp add: M)
qed

lemma geometric_bound:
  fixes g :: "nat \<Rightarrow> int" and m :: int
  assumes m: "1 \<le> m"
    and nonneg: "\<And>n. 0 \<le> g n"
    and step: "\<And>n. m * g (Suc n) \<le> (m - 1) * g n"
  shows "m ^ n * g n \<le> (m - 1) ^ n * g 0"
proof (induction n)
  case 0
  then show ?case by simp
next
  case (Suc n)
  have "m ^ Suc n * g (Suc n) = m ^ n * (m * g (Suc n))" by simp
  also have "\<dots> \<le> m ^ n * ((m - 1) * g n)"
    by (rule mult_left_mono [OF step]) (use m in simp)
  also have "\<dots> = (m - 1) * (m ^ n * g n)" by simp
  also have "\<dots> \<le> (m - 1) * ((m - 1) ^ n * g 0)"
    by (rule mult_left_mono [OF Suc.IH]) (use m in simp)
  finally show ?case by simp
qed

lemma geometric_zero:
  fixes g :: "nat \<Rightarrow> int"
  assumes k: "1 \<le> k"
    and nonneg: "\<And>n. 0 \<le> g n"
    and step: "\<And>n. 2 ^ k * g (Suc n) \<le> (2 ^ k - 1) * g n"
    and start: "g 0 < 2 ^ b"
  shows "g (2 ^ k * b) = 0"
proof -
  let ?M = "(2::nat) ^ k" and ?m = "(2::int) ^ k"
  let ?n = "?M * b"
  have m1: "1 \<le> ?m" by simp
  have m2: "2 \<le> ?m" using power_increasing [of 1 k "2::int"] k by simp
  have bound: "?m ^ ?n * g ?n \<le> (?m - 1) ^ ?n * g 0"
    using geometric_bound [of ?m g ?n] m1 nonneg step by blast
  have "2 * (?m - 1) ^ ?M \<le> ?m ^ ?M"
    by (rule two_pow_le) simp_all
  then have "(2 * (?m - 1) ^ ?M) ^ b \<le> (?m ^ ?M) ^ b"
    by (rule power_mono) (use m1 in simp)
  then have pw: "2 ^ b * (?m - 1) ^ ?n \<le> ?m ^ ?n"
    by (simp add: power_mult power_mult_distrib)
  have pos: "0 < (?m - 1) ^ ?n" using m2 by simp
  have "(?m - 1) ^ ?n * (2 ^ b * g ?n) = (2 ^ b * (?m - 1) ^ ?n) * g ?n" by simp
  also have "\<dots> \<le> ?m ^ ?n * g ?n"
    by (rule mult_right_mono [OF pw nonneg])
  also have "\<dots> \<le> (?m - 1) ^ ?n * g 0" by (rule bound)
  finally have le: "2 ^ b * g ?n \<le> g 0" using pos by (simp only: mult_le_cancel_left_pos)
  have "g ?n < 1"
  proof (rule ccontr)
    assume "\<not> g ?n < 1"
    then have "1 \<le> g ?n" by simp
    then have "2 ^ b * 1 \<le> 2 ^ b * g ?n" by (intro mult_left_mono) simp_all
    with le start show False by simp
  qed
  with nonneg [of ?n] show ?thesis by simp
qed

lemma antimono_from_step:
  fixes g :: "nat \<Rightarrow> int"
  assumes nonneg: "\<And>n. 0 \<le> g n"
    and step: "\<And>n. 2 ^ k * g (Suc n) \<le> (2 ^ k - 1) * g n"
    and zero: "g N = 0" and le: "N \<le> n"
  shows "g n = 0"
  using le
proof (induction n)
  case 0
  then show ?case using zero by simp
next
  case (Suc n)
  show ?case
  proof (cases "N \<le> n")
    case True
    then have "g n = 0" by (rule Suc.IH)
    with step [of n] have "2 ^ k * g (Suc n) \<le> 0" by simp
    then have "g (Suc n) \<le> 0" by (simp add: mult_le_0_iff)
    with nonneg [of "Suc n"] show ?thesis by simp
  next
    case False
    with Suc.prems have "N = Suc n" by simp
    with zero show ?thesis by simp
  qed
qed







lemma filter_ema_acc_step:
  assumes f: "filter_ema c s x = Some (y, s')" and w: "0 < int_t_bits c"
    and r0: "in_range (int_t_bits c) (filtered s)"
    and r1: "in_range (int_t_bits c) (x * 2 ^ (2 * K c))"
    and r2: "in_range (int_t_bits c) (x * 2 ^ (2 * K c) - filtered s)"
  shows "filtered s' = filtered s + (x * 2 ^ (2 * K c) - filtered s) div 2 ^ K c"
proof -
  have "in_range (int_t_bits c) (filtered s + (x * 2 ^ (2 * K c) - filtered s) div 2 ^ K c)"
    using in_range_between [OF r0 r1] acc_between [of "filtered s" "x * 2 ^ (2 * K c)" "K c"]
    by blast
  then show ?thesis
    using filter_ema_filtered [OF f] by (simp add: wrap_id [OF w] r1 r2)
qed


subsection \<open>Constant input: the accumulator converges\<close>

lemma next_acc_error: "t - next_acc k t a = (t - a) - (t - a) div 2 ^ k"
  by (simp add: next_acc_def)

lemma pos_error_step:
  fixes e :: int
  assumes e: "0 \<le> e"
  shows "2 ^ k * max 0 ((e - e div 2 ^ k) - (2 ^ k - 1)) \<le> (2 ^ k - 1) * max 0 (e - (2 ^ k - 1))"
proof -
  let ?m = "(2::int) ^ k"
  have m: "1 \<le> ?m" by simp
  have eq: "?m * (e - e div ?m) = (?m - 1) * e + e mod ?m"
    using mult_div_mod_eq [of ?m e] by (simp add: algebra_simps)
  have md: "e mod ?m \<le> ?m - 1" using pos_mod_bound [of ?m e] by simp
  show ?thesis
  proof (cases "e \<le> ?m - 1")
    case True
    then have "e div ?m = 0" using e by simp
    with True show ?thesis by simp
  next
    case False
    then have f: "0 < e - (?m - 1)" by simp
    have "?m * ((e - e div ?m) - (?m - 1)) = (?m - 1) * e + e mod ?m - ?m * (?m - 1)"
      using eq by (simp add: algebra_simps)
    also have "\<dots> \<le> (?m - 1) * e + (?m - 1) - ?m * (?m - 1)" using md by simp
    also have "\<dots> = (?m - 1) * (e - (?m - 1))" by (simp add: algebra_simps)
    finally have a: "?m * ((e - e div ?m) - (?m - 1)) \<le> (?m - 1) * (e - (?m - 1))" .
    have b: "0 \<le> (?m - 1) * (e - (?m - 1))" using m f by simp
    show ?thesis
    proof (cases "0 \<le> (e - e div ?m) - (?m - 1)")
      case True
      with a f show ?thesis by (simp add: max_def)
    next
      case False
      with b f show ?thesis by (simp add: max_def)
    qed
  qed
qed

lemma neg_error_step:
  fixes p :: int
  shows "2 ^ k * (p + (- p) div 2 ^ k) \<le> (2 ^ k - 1) * p"
proof -
  let ?m = "(2::int) ^ k"
  have "?m * ((- p) div ?m) + (- p) mod ?m = - p"
    by (rule mult_div_mod_eq)
  moreover have "0 \<le> (- p) mod ?m" by simp
  ultimately have "?m * ((- p) div ?m) \<le> - p" by linarith
  then show ?thesis by (simp add: algebra_simps)
qed

lemma funpow_next_acc_mono:
  assumes "a \<le> t" and "i \<le> j"
  shows "(next_acc k t ^^ i) a \<le> (next_acc k t ^^ j) a"
proof (rule lift_Suc_mono_le [OF _ assms(2)])
  fix n
  let ?A = "(next_acc k t ^^ n) a"
  have "?A \<le> t" using funpow_next_acc_between [where a = a and t = t and k = k and n = n] assms(1) by simp
  then have "0 \<le> (t - ?A) div 2 ^ k" by (simp add: pos_imp_zdiv_nonneg_iff)
  then show "?A \<le> (next_acc k t ^^ Suc n) a" by (simp add: next_acc_def)
qed

lemma funpow_next_acc_antimono:
  assumes "t \<le> a" and "i \<le> j"
  shows "(next_acc k t ^^ j) a \<le> (next_acc k t ^^ i) a"
proof (rule lift_Suc_antimono_le [OF _ assms(2)])
  fix n
  let ?A = "(next_acc k t ^^ n) a"
  have "t \<le> ?A" using funpow_next_acc_between [where a = a and t = t and k = k and n = n] assms(1) by simp
  then have "(t - ?A) div 2 ^ k \<le> 0"
    using div_pow2_neg [of "t - ?A" k] by (cases "t = ?A") auto
  then show "(next_acc k t ^^ Suc n) a \<le> ?A" by (simp add: next_acc_def)
qed

lemma pos_converged:
  assumes k: "1 \<le> k" and a: "a \<le> t" and start: "t - a < 2 ^ b" and n: "2 ^ k * b \<le> n"
  shows "t - (next_acc k t ^^ n) a \<le> 2 ^ k - 1"
proof -
  define g where "g i = max 0 (t - (next_acc k t ^^ i) a - (2 ^ k - 1))" for i
  have nonneg: "\<And>i. 0 \<le> g i" by (simp add: g_def)
  have step: "2 ^ k * g (Suc i) \<le> (2 ^ k - 1) * g i" for i
  proof -
    have "0 \<le> t - (next_acc k t ^^ i) a"
      using funpow_next_acc_between [where a = a and t = t and k = k and n = i] a by simp
    from pos_error_step [OF this, of k] show ?thesis
      by (simp add: g_def next_acc_error)
  qed
  have m1: "(1::int) \<le> 2 ^ k" by simp
  have "t - a - (2 ^ k - 1) < 2 ^ b" using start m1 by linarith
  then have "g 0 < 2 ^ b" by (simp add: g_def)
  then have "g (2 ^ k * b) = 0" using geometric_zero [of k g b] k nonneg step by blast
  then have "g n = 0" using antimono_from_step [of g k "2 ^ k * b" n] nonneg step n by blast
  then show ?thesis by (simp add: g_def)
qed

lemma neg_converged:
  assumes k: "1 \<le> k" and a: "t \<le> a" and start: "a - t < 2 ^ b" and n: "2 ^ k * b \<le> n"
  shows "(next_acc k t ^^ n) a = t"
proof -
  define g where "g i = (next_acc k t ^^ i) a - t" for i
  have nonneg: "\<And>i. 0 \<le> g i"
    using funpow_next_acc_between [where a = a and t = t and k = k] a by (simp add: g_def)
  have step: "2 ^ k * g (Suc i) \<le> (2 ^ k - 1) * g i" for i
  proof -
    let ?A = "(next_acc k t ^^ i) a"
    have gs: "g (Suc i) = (?A - t) + (- (?A - t)) div 2 ^ k"
      by (simp add: g_def next_acc_def)
    have gi: "g i = ?A - t" by (simp add: g_def)
    show ?thesis unfolding gs gi by (rule neg_error_step)
  qed
  have "g 0 < 2 ^ b" using start by (simp add: g_def)
  then have "g (2 ^ k * b) = 0" using geometric_zero [of k g b] k nonneg step by blast
  then have "g n = 0" using antimono_from_step [of g k "2 ^ k * b" n] nonneg step n by blast
  then show ?thesis by (simp add: g_def)
qed

lemma half_in_range:
  assumes "well_sized c"
  shows "in_range (int_t_bits c) (2 ^ (2 * K c - 1))"
proof -
  have "(2::int) ^ (2 * K c - 1) < 2 ^ (int_t_bits c - 1)"
    by (rule power_strict_increasing) (use assms in \<open>auto simp: well_sized_def\<close>)
  then show ?thesis by (simp add: in_range_def order_trans [of _ 0])
qed

lemma run_constant_exact:
  assumes ws: "well_sized c"
    and rt: "in_range (int_t_bits c) (x * 2 ^ (2 * K c))"
    and rh: "in_range (int_t_bits c) (max 0 (x * 2 ^ (2 * K c)) + 2 ^ (2 * K c - 1))"
  shows "run c EMA_init (replicate n x) =
    Some (map (\<lambda>j. ((next_acc (K c) (x * 2 ^ (2 * K c)) ^^ Suc j) 0 + 2 ^ (2 * K c - 1))
                 div 2 ^ (2 * K c)) [0..<n],
          EMA_init\<lparr>filtered := (next_acc (K c) (x * 2 ^ (2 * K c)) ^^ n) 0\<rparr>)"
proof -
  let ?w = "int_t_bits c" and ?t = "x * 2 ^ (2 * K c)" and ?h = "(2::int) ^ (2 * K c - 1)"
  let ?A = "\<lambda>i. (next_acc (K c) ?t ^^ i) 0"
  from ws have w: "0 < ?w" by (auto simp: well_sized_def)
  have le: "?w \<le> promoted c" by (simp add: promoted_def)
  have z: "in_range ?w 0" by (simp add: in_range_def)
  have hpos: "0 < ?h" by simp
  have A: "min 0 ?t \<le> ?A i \<and> ?A i \<le> max 0 ?t" for i
    by (rule funpow_next_acc_between)
  have rA: "in_range ?w (?A i)" for i
    using in_range_between [OF z rt] A [of i] by blast
  have rAh: "in_range ?w (?A i + ?h)" for i
    using rA [of i] A [of i] rh hpos unfolding in_range_def by linarith
  have d: "descale c (?A i) = (?A i + ?h) div 2 ^ (2 * K c)" for i
    by (rule descale_exact [OF ws rA in_range_mono [OF le rAh]])
  have "run c EMA_init (replicate n x) =
      Some (map (\<lambda>j. descale c ((next_acc (K c) ?t ^^ Suc j) (filtered EMA_init))) [0..<n],
            EMA_init\<lparr>filtered := (next_acc (K c) ?t ^^ n) (filtered EMA_init)\<rparr>)"
    by (rule run_constant [OF well_sized_instantiable [OF ws] w rt]) (simp_all add: EMA_init_def)
  then show ?thesis by (simp only: d EMA_init_def EMA.simps)
qed

lemma descale_mono:
  fixes a b :: int
  shows "a \<le> b \<Longrightarrow> (a + h) div 2 ^ k \<le> (b + h) div 2 ^ k"
  by (rule zdiv_mono1) simp_all

lemma descale_zero: "1 \<le> k \<Longrightarrow> (0 + 2 ^ (2 * k - 1)) div 2 ^ (2 * k) = (0::int)"
  using div_scale_exact [of k 0] by simp

lemma half_ge_pow: "1 \<le> k \<Longrightarrow> (2::int) ^ k \<le> 2 ^ (2 * k - 1)"
  by (rule power_increasing) auto

lemma descale_near:
  assumes k: "1 \<le> k" and lo: "x * 2 ^ (2 * k) - (2 ^ k - 1) \<le> a" and hi: "a \<le> x * 2 ^ (2 * k)"
  shows "(a + 2 ^ (2 * k - 1)) div 2 ^ (2 * k) = (x::int)"
proof (rule int_div_pos_eq [of _ _ _ "a + 2 ^ (2 * k - 1) - x * 2 ^ (2 * k)"])
  show "a + 2 ^ (2 * k - 1) = 2 ^ (2 * k) * x + (a + 2 ^ (2 * k - 1) - x * 2 ^ (2 * k))"
    by simp
  show "0 \<le> a + 2 ^ (2 * k - 1) - x * 2 ^ (2 * k)"
    using lo half_ge_pow [OF k] by linarith
  have "(2::int) ^ (2 * k - 1) < 2 ^ (2 * k)"
    by (rule power_strict_increasing) (use k in auto)
  then show "a + 2 ^ (2 * k - 1) - x * 2 ^ (2 * k) < 2 ^ (2 * k)"
    using hi by linarith
qed

lemma nonnegative_constant_converges:
  assumes "well_sized c" and "0 \<le> x"
    and "in_range (int_t_bits c) (x * 2 ^ (2 * K c) + 2 ^ (2 * K c - 1))"
  shows "\<exists>ys s'. run c EMA_init (replicate n x) = Some (ys, s') \<and> length ys = n \<and>
           sorted ys \<and> (\<forall>y\<in>set ys. 0 \<le> y \<and> y \<le> x) \<and>
           (\<forall>j<n. 2 ^ K c * int_t_bits c \<le> Suc j \<longrightarrow> ys ! j = x)"
proof -
  let ?w = "int_t_bits c" and ?k = "K c"
  let ?t = "x * 2 ^ (2 * ?k)" and ?h = "(2::int) ^ (2 * ?k - 1)"
  let ?A = "\<lambda>i. (next_acc ?k ?t ^^ i) 0"
  let ?d = "\<lambda>a. (a + ?h) div 2 ^ (2 * ?k)"
  let ?ys = "map (\<lambda>j. ?d (?A (Suc j))) [0..<n]"
  note ws = assms(1)
  from ws have k: "1 \<le> ?k" and w: "0 < ?w" by (auto simp: well_sized_def)
  have t0: "0 \<le> ?t" using assms(2) by simp
  have hpos: "0 < ?h" by simp
  have rt: "in_range ?w ?t" using assms(3) t0 hpos unfolding in_range_def by linarith
  have rh: "in_range ?w (max 0 ?t + ?h)" using assms(3) t0 by (simp add: max_def)
  have run: "run c EMA_init (replicate n x) = Some (?ys, EMA_init\<lparr>filtered := ?A n\<rparr>)"
    by (rule run_constant_exact [OF ws rt rh])
  have A: "0 \<le> ?A i \<and> ?A i \<le> ?t" for i
    using funpow_next_acc_between [where a = 0 and t = ?t and k = ?k and n = i] t0 by simp
  have lo: "0 \<le> ?d (?A i)" for i
    using A [of i] by (simp add: pos_imp_zdiv_nonneg_iff)
  have hi: "?d (?A i) \<le> x" for i
    using descale_mono [of "?A i" ?t ?h "2 * ?k"] A [of i] div_scale_exact [OF k, of x] by simp
  have mono: "?d (?A i) \<le> ?d (?A j)" if "i \<le> j" for i j
    by (rule descale_mono) (rule funpow_next_acc_mono [OF t0 that])
  have conv: "?d (?A i) = x" if i: "2 ^ ?k * ?w \<le> i" for i
  proof -
    have "?t < 2 ^ (?w - 1)" using rt by (simp add: in_range_def)
    also have "(2::int) ^ (?w - 1) \<le> 2 ^ ?w" by (rule power_increasing) simp_all
    finally have "?t - 0 < 2 ^ ?w" by simp
    from pos_converged [OF k t0 this i] have "?t - (2 ^ ?k - 1) \<le> ?A i" by simp
    then show ?thesis using A [of i] by (intro descale_near [OF k]) simp_all
  qed
  have "sorted ?ys"
  proof (unfold sorted_iff_nth_mono, intro allI impI)
    fix i j
    assume ij: "i \<le> j" and "j < length ?ys"
    then have "i < n" "j < n" by simp_all
    then have "?ys ! i = ?d (?A (Suc i))" "?ys ! j = ?d (?A (Suc j))"
      by (simp_all del: funpow.simps)
    with mono [of "Suc i" "Suc j"] ij show "?ys ! i \<le> ?ys ! j"
      by (simp del: funpow.simps)
  qed
  moreover have "\<forall>y\<in>set ?ys. 0 \<le> y \<and> y \<le> x" using lo hi by (auto simp del: funpow.simps)
  moreover have "\<forall>j<n. 2 ^ ?k * ?w \<le> Suc j \<longrightarrow> ?ys ! j = x" using conv by (auto simp del: funpow.simps)
  moreover have "length ?ys = n" by simp
  ultimately show ?thesis using run by blast
qed

lemma negative_constant_converges:
  assumes "well_sized c" and "x \<le> 0"
    and "in_range (int_t_bits c) (x * 2 ^ (2 * K c))"
  shows "\<exists>ys s'. run c EMA_init (replicate n x) = Some (ys, s') \<and> length ys = n \<and>
           sorted (rev ys) \<and> (\<forall>y\<in>set ys. x \<le> y \<and> y \<le> 0) \<and>
           (\<forall>j<n. 2 ^ K c * int_t_bits c \<le> Suc j \<longrightarrow> ys ! j = x)"
proof -
  let ?w = "int_t_bits c" and ?k = "K c"
  let ?t = "x * 2 ^ (2 * ?k)" and ?h = "(2::int) ^ (2 * ?k - 1)"
  let ?A = "\<lambda>i. (next_acc ?k ?t ^^ i) 0"
  let ?d = "\<lambda>a. (a + ?h) div 2 ^ (2 * ?k)"
  let ?ys = "map (\<lambda>j. ?d (?A (Suc j))) [0..<n]"
  note ws = assms(1)
  from ws have k: "1 \<le> ?k" and w: "0 < ?w" by (auto simp: well_sized_def)
  have t0: "?t \<le> 0" using assms(2) by (simp add: mult_le_0_iff)
  note rt = assms(3)
  have rh: "in_range ?w (max 0 ?t + ?h)" using half_in_range [OF ws] t0 by (simp add: max_def)
  have run: "run c EMA_init (replicate n x) = Some (?ys, EMA_init\<lparr>filtered := ?A n\<rparr>)"
    by (rule run_constant_exact [OF ws rt rh])
  have A: "?t \<le> ?A i \<and> ?A i \<le> 0" for i
    using funpow_next_acc_between [where a = 0 and t = ?t and k = ?k and n = i] t0 by simp
  have lo: "x \<le> ?d (?A i)" for i
    using descale_mono [of ?t "?A i" ?h "2 * ?k"] A [of i] div_scale_exact [OF k, of x] by simp
  have hi: "?d (?A i) \<le> 0" for i
    using descale_mono [of "?A i" 0 ?h "2 * ?k"] A [of i] descale_zero [OF k] by simp
  have mono: "?d (?A j) \<le> ?d (?A i)" if "i \<le> j" for i j
    by (rule descale_mono) (rule funpow_next_acc_antimono [OF t0 that])
  have conv: "?d (?A i) = x" if i: "2 ^ ?k * ?w \<le> i" for i
  proof -
    have "- (2 ^ (?w - 1)) \<le> ?t" using rt by (simp add: in_range_def)
    moreover have "(2::int) ^ (?w - 1) < 2 ^ ?w" by (rule power_strict_increasing) (use w in simp_all)
    ultimately have "0 - ?t < 2 ^ ?w" by linarith
    from neg_converged [OF k t0 this i] have "?A i = ?t" .
    then show ?thesis using div_scale_exact [OF k, of x] by simp
  qed
  have "sorted (rev ?ys)"
  proof (unfold sorted_rev_iff_nth_mono, intro allI impI)
    fix i j
    assume ij: "i \<le> j" and "j < length ?ys"
    then have "i < n" "j < n" by simp_all
    then have "?ys ! i = ?d (?A (Suc i))" "?ys ! j = ?d (?A (Suc j))"
      by (simp_all del: funpow.simps)
    with mono [of "Suc i" "Suc j"] ij show "?ys ! j \<le> ?ys ! i"
      by (simp del: funpow.simps)
  qed
  moreover have "\<forall>y\<in>set ?ys. x \<le> y \<and> y \<le> 0" using lo hi by (auto simp del: funpow.simps)
  moreover have "\<forall>j<n. 2 ^ ?k * ?w \<le> Suc j \<longrightarrow> ?ys ! j = x" using conv by (auto simp del: funpow.simps)
  moreover have "length ?ys = n" by simp
  ultimately show ?thesis using run by blast
qed

lemma zero_input_fixed_point:
  assumes "well_sized c"
  shows "run c EMA_init (replicate n 0) = Some (replicate n 0, EMA_init)"
proof -
  have z: "filter_ema c EMA_init 0 = Some (0, EMA_init)"
    by (rule filter_ema_fixed_point [OF assms]) (simp_all add: EMA_init_def in_range_def)
  show ?thesis by (induction n) (simp_all add: z)
qed

section \<open>The claims\<close>

subsection \<open>C1\<close>

text \<open>
  Claim C1 (as amended). For every shift \<open>K \<ge> 1\<close> and signed integer type such that
  \<open>int_t\<close> and \<^verbatim>\<open>int\<close> have more than \<open>2 * K\<close> bits, and whenever the accumulator,
  the scaled input, their difference and the sum that is shifted for the output are
  values of the types they are computed in, a call \<open>filter(input)\<close> computes exactly
  the steps of the specification, in order:
  \<open>scaled_input = input << 2K\<close>, \<open>difference = scaled_input - accumulator\<close>,
  \<open>accumulator = accumulator + (difference >> K)\<close> with the shift rounding towards
  minus infinity, and returns \<open>(accumulator + 2^(2K-1)) >> 2K\<close>; the object changes in
  its accumulator only.
\<close>

theorem filter_computes_spec_algorithm:
  assumes "well_sized c"
    and "in_range (int_t_bits c) (filtered s)"
    and "in_range (int_t_bits c) (input * 2 ^ (2 * K c))"
    and "in_range (int_t_bits c) (input * 2 ^ (2 * K c) - filtered s)"
    and "in_range (promoted c) (snd (spec_filter (K c) (filtered s) input) + 2 ^ (2 * K c - 1))"
  shows "filter_ema c s input =
    Some (fst (spec_filter (K c) (filtered s) input),
          s\<lparr>filtered := snd (spec_filter (K c) (filtered s) input)\<rparr>)"
  using filter_ema_exact [OF assms(1-4), of ] assms(5)
  by (simp add: spec_filter_def Let_def)

theorem filter_computes_spec_algorithm_witness:
  "well_sized \<lparr>K = 4, int_t_bits = 16, int_bits = 16\<rparr> \<and>
   in_range 16 1600 \<and> in_range 16 (- 7 * 2 ^ 8) \<and> in_range 16 (- 7 * 2 ^ 8 - 1600) \<and>
   spec_filter 4 1600 (- 7) = (5, 1388) \<and>
   filter_ema \<lparr>K = 4, int_t_bits = 16, int_bits = 16\<rparr> \<lparr>filtered = 1600\<rparr> (- 7)
     = Some (5, \<lparr>filtered = 1388\<rparr>)"
  using filter_computes_spec_algorithm
    [of "\<lparr>K = 4, int_t_bits = 16, int_bits = 16\<rparr>" "\<lparr>filtered = 1600\<rparr>" "- 7"]
  by (simp add: well_sized_def in_range_def spec_filter_def promoted_def)

text \<open>
  The claim as stated, for every \<open>K\<close> and every type, fails: with \<open>K = 0\<close> the
  constant is \<^verbatim>\<open>1 << -1\<close> and no call has a result; and \<^verbatim>\<open>EMA<4, int16_t>\<close> (with a
  32-bit \<^verbatim>\<open>int\<close>) fed \<open>200\<close> stores \<open>200 << 8 = 51200\<close> in an \<^verbatim>\<open>int16_t\<close> as
  \<open>-14336\<close> and returns \<open>-3\<close>, where the steps on the integers give \<open>13\<close>.
\<close>

theorem filter_differs_from_spec_algorithm:
  "filter_ema \<lparr>K = 0, int_t_bits = 32, int_bits = 32\<rparr> EMA_init 1 = None \<and>
   filter_ema \<lparr>K = 4, int_t_bits = 16, int_bits = 32\<rparr> EMA_init 200 = Some (- 3, \<lparr>filtered = - 896\<rparr>) \<and>
   spec_filter 4 (filtered EMA_init) 200 = (13, 3200)"
  by code_simp

subsection \<open>C2\<close>

text \<open>
  Claim C2. With \<open>K = 4\<close>, a sample type of at least 16 bits (and an \<^verbatim>\<open>int\<close> of at
  least 16 bits, as C++ guarantees) and a freshly constructed filter, whose accumulator
  is \<open>0\<close>, one call \<open>filter(100)\<close> returns exactly \<open>6\<close> and leaves the accumulator
  at \<open>1600\<close>.
\<close>

theorem literal_scenario:
  assumes "K c = 4" and "16 \<le> int_t_bits c" and "16 \<le> int_bits c"
  shows "filter_ema c EMA_init 100 = Some (6, \<lparr>filtered = 1600\<rparr>)"
proof -
  from assms have ws: "well_sized c" by (simp add: well_sized_def)
  have le: "16 \<le> promoted c" using assms by (simp add: promoted_def)
  have r: "in_range (int_t_bits c) 0" "in_range (int_t_bits c) 25600"
    using in_range_mono [OF assms(2), of 0] in_range_mono [OF assms(2), of 25600]
    by (simp_all add: in_range_def)
  have r3: "in_range (promoted c) 1728"
    using in_range_mono [OF le, of 1728] by (simp add: in_range_def)
  show ?thesis
    using filter_ema_exact [OF ws, of EMA_init 100] r r3 assms(1)
    by (simp add: EMA_init_def)
qed

theorem literal_scenario_witness:
  "filter_ema \<lparr>K = 4, int_t_bits = 16, int_bits = 16\<rparr> EMA_init 100 = Some (6, \<lparr>filtered = 1600\<rparr>)"
  using literal_scenario [of "\<lparr>K = 4, int_t_bits = 16, int_bits = 16\<rparr>"] by simp

subsection \<open>C3\<close>


subsection \<open>C4\<close>

text \<open>
  Claim C4. Starting from a freshly constructed filter, if every input is \<open>0\<close> then
  every call returns \<open>0\<close> and the accumulator remains \<open>0\<close>. Where \<open>int_t\<close> and \<^verbatim>\<open>int\<close>
  have more than \<open>2 * K\<close> bits this holds (lemma \<open>zero_input_fixed_point\<close>). The code
  does not do it when \<open>2 * K\<close> is the width of \<^verbatim>\<open>int\<close> and \<open>int_t\<close> is wider, where the
  rounding constant, computed in \<^verbatim>\<open>int\<close>, is \<open>- 2^(2K-1)\<close>: in \<^verbatim>\<open>EMA<16, int64_t>\<close>
  with a 32-bit \<^verbatim>\<open>int\<close> and in \<^verbatim>\<open>EMA<8, int32_t>\<close> with a 16-bit \<^verbatim>\<open>int\<close> the
  accumulator stays \<open>0\<close> but every call returns \<open>-1\<close>.
\<close>

theorem zero_input_returns_minus_one:
  "run \<lparr>K = 16, int_t_bits = 64, int_bits = 32\<rparr> EMA_init (replicate n 0)
     = Some (replicate n (- 1), EMA_init) \<and>
   run \<lparr>K = 8, int_t_bits = 32, int_bits = 16\<rparr> EMA_init (replicate n 0)
     = Some (replicate n (- 1), EMA_init)"
proof -
  have a: "filter_ema \<lparr>K = 16, int_t_bits = 64, int_bits = 32\<rparr> EMA_init 0 = Some (- 1, EMA_init)"
    by code_simp
  have b: "filter_ema \<lparr>K = 8, int_t_bits = 32, int_bits = 16\<rparr> EMA_init 0 = Some (- 1, EMA_init)"
    by code_simp
  have "run \<lparr>K = 16, int_t_bits = 64, int_bits = 32\<rparr> EMA_init (replicate n 0)
      = Some (replicate n (- 1), EMA_init)"
    by (induction n) (simp_all add: a)
  moreover have "run \<lparr>K = 8, int_t_bits = 32, int_bits = 16\<rparr> EMA_init (replicate n 0)
      = Some (replicate n (- 1), EMA_init)"
    by (induction n) (simp_all add: b)
  ultimately show ?thesis by blast
qed

subsection \<open>C5\<close>

text \<open>
  Claim C5 (as amended). For every constant input \<open>x\<close> fed to a freshly constructed
  filter with \<open>K \<ge> 1\<close>, where \<open>int_t\<close> and \<^verbatim>\<open>int\<close> have more than \<open>2 * K\<close> bits and
  \<open>x * 2^(2K)\<close> and \<open>x * 2^(2K) + 2^(2K-1)\<close> are values of \<open>int_t\<close> (the type is wide
  enough), every call returns, the output sequence is monotonic (non-decreasing for
  \<open>x \<ge> 0\<close>, non-increasing for \<open>x \<le> 0\<close>; not strictly: outputs repeat), it stays
  between \<open>0\<close> and \<open>x\<close>, so never overshoots \<open>x\<close>, and it equals \<open>x\<close> exactly from call
  number \<open>2^K * w\<close> on, where \<open>w\<close> is the width of \<open>int_t\<close> (a bound that grows with
  \<open>2^K\<close>, not in proportion to \<open>K\<close>). In particular, with \<open>K = 4\<close> and a 16-bit type,
  feeding \<open>100\<close> repeatedly yields a non-decreasing output sequence that is \<open>100\<close>
  from the 256th call on.
\<close>

theorem constant_input_converges:
  assumes "well_sized c"
    and "in_range (int_t_bits c) (x * 2 ^ (2 * K c))"
    and "in_range (int_t_bits c) (x * 2 ^ (2 * K c) + 2 ^ (2 * K c - 1))"
  shows "\<exists>ys s'. run c EMA_init (replicate n x) = Some (ys, s') \<and> length ys = n \<and>
           (0 \<le> x \<longrightarrow> sorted ys \<and> (\<forall>y\<in>set ys. 0 \<le> y \<and> y \<le> x)) \<and>
           (x \<le> 0 \<longrightarrow> sorted (rev ys) \<and> (\<forall>y\<in>set ys. x \<le> y \<and> y \<le> 0)) \<and>
           (\<forall>j<n. 2 ^ K c * int_t_bits c \<le> Suc j \<longrightarrow> ys ! j = x)"
proof -
  from run_total [OF well_sized_instantiable [OF assms(1)], of EMA_init "replicate n x"]
  obtain ys s' where r: "run c EMA_init (replicate n x) = Some (ys, s')" and l: "length ys = n"
    by auto
  have p: "sorted ys \<and> (\<forall>y\<in>set ys. 0 \<le> y \<and> y \<le> x) \<and>
      (\<forall>j<n. 2 ^ K c * int_t_bits c \<le> Suc j \<longrightarrow> ys ! j = x)" if "0 \<le> x"
  proof -
    from nonnegative_constant_converges [OF assms(1) that assms(3), of n]
    obtain zs t' where z: "run c EMA_init (replicate n x) = Some (zs, t')"
      and "sorted zs \<and> (\<forall>y\<in>set zs. 0 \<le> y \<and> y \<le> x) \<and>
        (\<forall>j<n. 2 ^ K c * int_t_bits c \<le> Suc j \<longrightarrow> zs ! j = x)"
      by blast
    moreover from r z have "zs = ys" by simp
    ultimately show ?thesis by simp
  qed
  have q: "sorted (rev ys) \<and> (\<forall>y\<in>set ys. x \<le> y \<and> y \<le> 0) \<and>
      (\<forall>j<n. 2 ^ K c * int_t_bits c \<le> Suc j \<longrightarrow> ys ! j = x)" if "x \<le> 0"
  proof -
    from negative_constant_converges [OF assms(1) that assms(2), of n]
    obtain zs t' where z: "run c EMA_init (replicate n x) = Some (zs, t')"
      and "sorted (rev zs) \<and> (\<forall>y\<in>set zs. x \<le> y \<and> y \<le> 0) \<and>
        (\<forall>j<n. 2 ^ K c * int_t_bits c \<le> Suc j \<longrightarrow> zs ! j = x)"
      by blast
    moreover from r z have "zs = ys" by simp
    ultimately show ?thesis by simp
  qed
  have "\<forall>j<n. 2 ^ K c * int_t_bits c \<le> Suc j \<longrightarrow> ys ! j = x"
  proof (cases "0 \<le> x")
    case True
    from p [OF this] show ?thesis by blast
  next
    case False
    then have "x \<le> 0" by simp
    from q [OF this] show ?thesis by blast
  qed
  moreover have "0 \<le> x \<longrightarrow> sorted ys \<and> (\<forall>y\<in>set ys. 0 \<le> y \<and> y \<le> x)"
    using p by blast
  moreover have "x \<le> 0 \<longrightarrow> sorted (rev ys) \<and> (\<forall>y\<in>set ys. x \<le> y \<and> y \<le> 0)"
    using q by blast
  ultimately show ?thesis using r l by blast
qed

theorem constant_input_converges_witness:
  "well_sized \<lparr>K = 4, int_t_bits = 16, int_bits = 16\<rparr> \<and>
   in_range 16 (100 * 2 ^ 8) \<and> in_range 16 (100 * 2 ^ 8 + 2 ^ 7) \<and>
   (\<exists>ys s'. run \<lparr>K = 4, int_t_bits = 16, int_bits = 16\<rparr> EMA_init (replicate 300 100) = Some (ys, s') \<and>
      length ys = 300 \<and> sorted ys \<and> (\<forall>y\<in>set ys. 0 \<le> y \<and> y \<le> 100) \<and>
      (\<forall>j<300. 256 \<le> Suc j \<longrightarrow> ys ! j = 100))"
proof -
  let ?c = "\<lparr>K = 4, int_t_bits = 16, int_bits = 16\<rparr>"
  have h1: "well_sized ?c" by (simp add: well_sized_def)
  have h2: "in_range (int_t_bits ?c) (100 * 2 ^ (2 * K ?c))"
    by (simp add: in_range_def)
  have h3: "in_range (int_t_bits ?c) (100 * 2 ^ (2 * K ?c) + 2 ^ (2 * K ?c - 1))"
    by (simp add: in_range_def)
  have b: "2 ^ K ?c * int_t_bits ?c = 256" by simp
  have r: "in_range 16 (100 * 2 ^ 8) \<and> in_range 16 (100 * 2 ^ 8 + 2 ^ 7)"
    by (simp add: in_range_def)
  have z: "(0::int) \<le> 100" by simp
  note inst = constant_input_converges [OF h1 h2 h3, of 300, unfolded b]
  from inst z obtain ys s' where
    "run ?c EMA_init (replicate 300 100) = Some (ys, s')" "length ys = 300"
    "sorted ys" "\<forall>y\<in>set ys. 0 \<le> y \<and> y \<le> 100"
    "\<forall>j<300. 256 \<le> Suc j \<longrightarrow> ys ! j = 100"
    by blast
  with h1 r show ?thesis by blast
qed

text \<open>
  The output is not strictly monotonic, not even before it has reached the input:
  \<^verbatim>\<open>EMA<4, int16_t>\<close> fed \<open>1\<close> twice returns \<open>0\<close> and \<open>0\<close>.
\<close>

theorem constant_input_not_strictly_monotonic:
  "run \<lparr>K = 4, int_t_bits = 16, int_bits = 16\<rparr> EMA_init [1, 1] = Some ([0, 0], \<lparr>filtered = 31\<rparr>)"
  by code_simp

subsection \<open>C6\<close>

text \<open>
  Claim C6. For every negative constant input \<open>c\<close> fed to a freshly constructed filter
  with \<open>K \<ge> 1\<close> and a wide-enough sample type, the output sequence is non-increasing
  and converges to \<open>c\<close>. Where \<^verbatim>\<open>int\<close> has more than \<open>2 * K\<close> bits this holds (lemma
  \<open>negative_constant_converges\<close>). The code does not do it when \<open>2 * K\<close> is the width
  of \<^verbatim>\<open>int\<close> and \<open>int_t\<close> is wider: \<^verbatim>\<open>1 << ((K * 2) - 1)\<close> is computed in \<^verbatim>\<open>int\<close>,
  where it is the most negative value, so the rounding constant is \<open>- 2^(2K-1)\<close>:
  \<open>- 2^31\<close> in \<^verbatim>\<open>EMA<16, int64_t>\<close> with a 32-bit \<^verbatim>\<open>int\<close>, \<open>- 32768\<close> in
  \<^verbatim>\<open>EMA<8, int32_t>\<close> with a 16-bit \<^verbatim>\<open>int\<close>. In the latter, at the accumulator
  \<open>- 65536\<close>, the exact scaled value of the input \<open>-1\<close>, the call returns \<open>-2\<close>; and the
  constant input \<open>-1\<close> to a fresh filter returns \<open>-2\<close> at every call from the
  8192nd on.
\<close>

theorem negative_constant_settles_one_below:
  "fixedPointAHalf \<lparr>K = 16, int_t_bits = 64, int_bits = 32\<rparr> = Some (- 2147483648) \<and>
   fixedPointAHalf \<lparr>K = 8, int_t_bits = 32, int_bits = 16\<rparr> = Some (- 32768) \<and>
   filter_ema \<lparr>K = 8, int_t_bits = 32, int_bits = 16\<rparr> \<lparr>filtered = - 65536\<rparr> (- 1)
     = Some (- 2, \<lparr>filtered = - 65536\<rparr>) \<and>
   map_option (last \<circ> fst)
     (run \<lparr>K = 8, int_t_bits = 32, int_bits = 16\<rparr> EMA_init (replicate (8192 + n) (- 1))) = Some (- 2)"
proof -
  let ?c = "\<lparr>K = 8, int_t_bits = 32, int_bits = 16\<rparr>"
  let ?t = "- 1 * 2 ^ (2 * K ?c) :: int"
  let ?A = "\<lambda>i. (next_acc (K ?c) ?t ^^ i) (filtered EMA_init)"
  have half: "fixedPointAHalf ?c = Some (- 32768)" by code_simp
  have half': "fixedPointAHalf \<lparr>K = 16, int_t_bits = 64, int_bits = 32\<rparr> = Some (- 2147483648)"
    by code_simp
  have one: "filter_ema ?c \<lparr>filtered = - 65536\<rparr> (- 1) = Some (- 2, \<lparr>filtered = - 65536\<rparr>)"
    by code_simp
  have i: "instantiable ?c" by (simp add: instantiable_def promoted_def)
  have t: "?t = - 65536" by simp
  have run: "run ?c EMA_init (replicate (8192 + n) (- 1)) =
      Some (map (\<lambda>j. descale ?c (?A (Suc j))) [0..<8192 + n],
            EMA_init\<lparr>filtered := ?A (8192 + n)\<rparr>)"
    by (rule run_constant [OF i]) (simp_all add: in_range_def EMA_init_def)
  have conv: "?A (8192 + n) = - 65536"
  proof -
    have "(next_acc 8 (- 65536) ^^ (8192 + n)) 0 = - 65536"
      by (rule neg_converged [where b = 32]) simp_all
    then show ?thesis by (simp add: EMA_init_def del: funpow.simps)
  qed
  have d: "descale ?c (- 65536) = - 2" by code_simp
  have up: "[0..<8192 + n] = [0..<8191 + n] @ [8191 + n]"
  proof -
    have "8192 + n = Suc (8191 + n)" by simp
    then show ?thesis by (simp only: upt_Suc_append le0 if_True)
  qed
  have "last (map (\<lambda>j. descale ?c (?A (Suc j))) [0..<8192 + n]) = descale ?c (?A (Suc (8191 + n)))"
    unfolding up by (simp del: funpow.simps)
  also have "Suc (8191 + n) = 8192 + n" by simp
  finally have "last (map (\<lambda>j. descale ?c (?A (Suc j))) [0..<8192 + n]) = - 2"
    by (simp only: conv d)
  then have "map_option (last \<circ> fst) (run ?c EMA_init (replicate (8192 + n) (- 1))) = Some (- 2)"
    by (simp only: run option.map comp_def fst_conv)
  with half half' one show ?thesis by blast
qed

subsection \<open>C7\<close>

text \<open>
  Claim C7 (as amended). For every call \<open>filter(x)\<close> on a filter with shift \<open>K\<close> in
  which the scaled input \<open>x * 2^(2K)\<close> and its difference to the accumulator are
  values of \<open>int_t\<close> (nothing overflows), the scaled prediction error
  \<open>x * 2^(2K) - accumulator\<close> satisfies \<open>new error = old error - (old error >> K)\<close>
  exactly, and so differs from \<open>(1 - 2^-K) * old error\<close> by less than one:
  \<open>2^K * new error - (2^K - 1) * old error\<close> lies in \<open>[0, 2^K)\<close>.
\<close>

theorem error_decay:
  assumes "filter_ema c s x = Some (y, s')" and "0 < int_t_bits c"
    and "in_range (int_t_bits c) (filtered s)"
    and "in_range (int_t_bits c) (x * 2 ^ (2 * K c))"
    and "in_range (int_t_bits c) (x * 2 ^ (2 * K c) - filtered s)"
  shows "let e = x * 2 ^ (2 * K c) - filtered s;
             e' = x * 2 ^ (2 * K c) - filtered s'
         in e' = e - e div 2 ^ K c \<and>
            0 \<le> 2 ^ K c * e' - (2 ^ K c - 1) * e \<and>
            2 ^ K c * e' - (2 ^ K c - 1) * e < 2 ^ K c"
proof -
  let ?e = "x * 2 ^ (2 * K c) - filtered s"
  have acc: "filtered s' = filtered s + ?e div 2 ^ K c"
    by (rule filter_ema_acc_step [OF assms])
  have step: "x * 2 ^ (2 * K c) - filtered s' = ?e - ?e div 2 ^ K c"
    by (simp add: acc)
  show ?thesis
    unfolding Let_def step using decay_rounding [of "K c" ?e] by simp
qed

theorem error_decay_witness:
  "filter_ema \<lparr>K = 4, int_t_bits = 16, int_bits = 16\<rparr> \<lparr>filtered = 1600\<rparr> 100
     = Some (12, \<lparr>filtered = 3100\<rparr>) \<and>
   in_range 16 1600 \<and> in_range 16 (100 * 2 ^ 8) \<and> in_range 16 (100 * 2 ^ 8 - 1600) \<and>
   (100 * 2 ^ 8 - 3100 :: int) = (100 * 2 ^ 8 - 1600) - (100 * 2 ^ 8 - 1600) div 2 ^ 4 \<and>
   (0::int) \<le> 2 ^ 4 * (100 * 2 ^ 8 - 3100) - (2 ^ 4 - 1) * (100 * 2 ^ 8 - 1600) \<and>
   (2 ^ 4 * (100 * 2 ^ 8 - 3100) - (2 ^ 4 - 1) * (100 * 2 ^ 8 - 1600) :: int) < 2 ^ 4"
proof -
  let ?c = "\<lparr>K = 4, int_t_bits = 16, int_bits = 16\<rparr>"
  have f: "filter_ema ?c \<lparr>filtered = 1600\<rparr> 100 = Some (12, \<lparr>filtered = 3100\<rparr>)"
    by code_simp
  have w: "0 < int_t_bits ?c" by simp
  have r1: "in_range (int_t_bits ?c) (filtered \<lparr>filtered = 1600\<rparr>)" by (simp add: in_range_def)
  have r2: "in_range (int_t_bits ?c) (100 * 2 ^ (2 * K ?c))" by (simp add: in_range_def)
  have r3: "in_range (int_t_bits ?c) (100 * 2 ^ (2 * K ?c) - filtered \<lparr>filtered = 1600\<rparr>)"
    by (simp add: in_range_def)
  from error_decay [OF f w r1 r2 r3] f show ?thesis
    by (simp add: in_range_def Let_def)
qed

text \<open>
  Without the condition the claim fails: in \<^verbatim>\<open>EMA<1, int16_t>\<close> (with a 32-bit
  \<^verbatim>\<open>int\<close>) at the accumulator \<open>10000\<close>, \<open>filter(-6000)\<close> has the scaled input
  \<open>-24000\<close>, a value of \<^verbatim>\<open>int16_t\<close>, and the error \<open>-34000\<close>, which is not; the
  accumulator becomes \<open>25768\<close> and the error \<open>-49768\<close>, not
  \<open>-34000 - (-34000 >> 1) = -17000\<close>. (The identity always holds for the \<^verbatim>\<open>int16_t\<close>
  value of the difference, lemma \<open>machine_error_step\<close>.)
\<close>

theorem error_decay_fails_on_overflow:
  "filter_ema \<lparr>K = 1, int_t_bits = 16, int_bits = 32\<rparr> \<lparr>filtered = 10000\<rparr> (- 6000)
     = Some (6442, \<lparr>filtered = 25768\<rparr>) \<and>
   in_range 16 10000 \<and> in_range 16 (- 6000 * 2 ^ (2 * 1)) \<and>
   \<not> in_range 16 (- 6000 * 2 ^ (2 * 1) - 10000) \<and>
   (- 6000 * 2 ^ (2 * 1) - 10000 :: int) = - 34000 \<and>
   (- 6000 * 2 ^ (2 * 1) - 25768 :: int) = - 49768 \<and>
   (- 34000 - (- 34000) div 2 ^ 1 :: int) = - 17000"
proof -
  have "filter_ema \<lparr>K = 1, int_t_bits = 16, int_bits = 32\<rparr> \<lparr>filtered = 10000\<rparr> (- 6000)
     = Some (6442, \<lparr>filtered = 25768\<rparr>)"
    by code_simp
  then show ?thesis by (simp add: in_range_def)
qed

subsection \<open>C8\<close>

text \<open>
  Claim C8 (as amended). For every shift \<open>K \<ge> 1\<close> such that \<open>int_t\<close> and \<^verbatim>\<open>int\<close>
  have more than \<open>2 * K\<close> bits, a filter instance is well defined: the compile-time
  rounding constant is \<open>2 ^ (2 * K - 1)\<close>, the shifts by \<open>2 * K\<close> and by \<open>K\<close> inside
  \<open>filter\<close> are valid shift operations, and every call returns a result.
\<close>

theorem shifts_valid:
  assumes "well_sized c"
  shows "fixedPointAHalf c = Some (2 ^ (2 * K c - 1)) \<and>
         shl (promoted c) x (int (K c) * 2) = Some (wrap (promoted c) (x * 2 ^ (2 * K c))) \<and>
         shr (promoted c) y (int (K c)) = Some (y div 2 ^ K c) \<and>
         shr (promoted c) z (int (K c) * 2) = Some (z div 2 ^ (2 * K c)) \<and>
         (\<exists>r. filter_ema c s x = Some r)"
proof -
  from assms have i: "instantiable c" by (rule well_sized_instantiable)
  have "fixedPointAHalf c = Some (wrap (int_t_bits c) (wrap (int_bits c) (2 ^ (2 * K c - 1))))"
    using i by (auto simp: fixedPointAHalf_def shl_def instantiable_def)
  then have "fixedPointAHalf c = Some (2 ^ (2 * K c - 1))"
    by (simp only: half_exact [OF assms])
  moreover have "shl (promoted c) x (int (K c) * 2) = Some (wrap (promoted c) (x * 2 ^ (2 * K c)))"
    using i by (auto simp: shl_def instantiable_def)
  moreover have "shr (promoted c) y (int (K c)) = Some (y div 2 ^ K c)"
    using i by (auto simp: shr_def instantiable_def)
  moreover have "shr (promoted c) z (int (K c) * 2) = Some (z div 2 ^ (2 * K c))"
    using i by (auto simp: shr_def instantiable_def)
  moreover have "\<exists>r. filter_ema c s x = Some r"
    using i filter_ema_defined [of c s x] by blast
  ultimately show ?thesis by blast
qed

theorem shifts_valid_witness:
  "well_sized \<lparr>K = 4, int_t_bits = 16, int_bits = 16\<rparr> \<and>
   fixedPointAHalf \<lparr>K = 4, int_t_bits = 16, int_bits = 16\<rparr> = Some 128 \<and>
   (\<exists>r. filter_ema \<lparr>K = 4, int_t_bits = 16, int_bits = 16\<rparr> EMA_init 100 = Some r)"
  using shifts_valid [of "\<lparr>K = 4, int_t_bits = 16, int_bits = 16\<rparr>" 100 0 0 EMA_init]
  by (simp add: well_sized_def)

text \<open>
  The claim as stated includes \<open>K = 0\<close>, where the constant is \<^verbatim>\<open>1 << -1\<close>: a
  negative shift count, for which the constant has no value and the class cannot be
  instantiated. A shift count can also be too large: in \<^verbatim>\<open>EMA<8, int16_t>\<close> with a
  16-bit \<^verbatim>\<open>int\<close>, \<^verbatim>\<open>input << 16\<close> shifts a 16-bit value by its width.
\<close>

theorem shift_zero_undefined:
  "fixedPointAHalf \<lparr>K = 0, int_t_bits = 16, int_bits = 16\<rparr> = None \<and>
   shl 16 1 (int (K \<lparr>K = 0, int_t_bits = 16, int_bits = 16\<rparr>) * 2 - 1) = None \<and>
   filter_ema \<lparr>K = 0, int_t_bits = 16, int_bits = 16\<rparr> EMA_init 0 = None \<and>
   shl 16 1 (int (K \<lparr>K = 8, int_t_bits = 16, int_bits = 16\<rparr>) * 2) = None \<and>
   filter_ema \<lparr>K = 8, int_t_bits = 16, int_bits = 16\<rparr> EMA_init 1 = None"
  by code_simp

subsection \<open>C9\<close>




subsection \<open>C10\<close>

text \<open>
  Claim C10. For every \<open>K \<ge> 1\<close> and every input \<open>x\<close>, if the accumulator equals
  \<open>x * 2^(2K)\<close> then \<open>filter(x)\<close> leaves the accumulator unchanged and returns exactly
  \<open>x\<close>. Where \<open>int_t\<close> and \<^verbatim>\<open>int\<close> have more than \<open>2 * K\<close> bits this holds (lemma
  \<open>filter_ema_fixed_point\<close>). The code does not do it when \<open>2 * K\<close> is the width of
  \<^verbatim>\<open>int\<close> and \<open>int_t\<close> is wider, where the rounding constant, computed in \<^verbatim>\<open>int\<close>, is
  \<open>- 2^(2K-1)\<close>: the accumulator is unchanged, but the call returns \<open>x - 1\<close>. In
  \<^verbatim>\<open>EMA<16, int64_t>\<close> with a 32-bit \<^verbatim>\<open>int\<close>, \<open>filter(5)\<close> at the accumulator
  \<open>5 * 2^32\<close> returns \<open>4\<close>; in \<^verbatim>\<open>EMA<8, int32_t>\<close> with a 16-bit \<^verbatim>\<open>int\<close>,
  \<open>filter(5)\<close> at \<open>5 * 2^16\<close> returns \<open>4\<close> and \<open>filter(-3)\<close> at \<open>-3 * 2^16\<close> returns
  \<open>-4\<close>.
\<close>

theorem scaled_fixed_point_returns_one_below:
  "filter_ema \<lparr>K = 16, int_t_bits = 64, int_bits = 32\<rparr> \<lparr>filtered = 5 * 2 ^ 32\<rparr> 5
     = Some (4, \<lparr>filtered = 5 * 2 ^ 32\<rparr>) \<and>
   filter_ema \<lparr>K = 8, int_t_bits = 32, int_bits = 16\<rparr> \<lparr>filtered = 5 * 2 ^ 16\<rparr> 5
     = Some (4, \<lparr>filtered = 5 * 2 ^ 16\<rparr>) \<and>
   filter_ema \<lparr>K = 8, int_t_bits = 32, int_bits = 16\<rparr> \<lparr>filtered = - 3 * 2 ^ 16\<rparr> (- 3)
     = Some (- 4, \<lparr>filtered = - 3 * 2 ^ 16\<rparr>)"
  by code_simp

end
